theory Spec2Isabelle
  imports Main "HOL-Library.Product_Lexorder"
begin

section \<open>The knowledge base of the Minesweeper player (minesweeper.py)\<close>

text \<open>
  A cell is a Python tuple \<open>(i, j)\<close> of unbounded integers. A Python \<open>set\<close> of cells is
  a HOL set (finite in every state the program builds); \<open>len\<close> is \<open>card\<close>. A loop over a
  Python set visits its elements in an order the language does not fix; the model visits
  them in increasing order (\<open>sorted_list_of_set\<close>, rows first) and the lemmas below show
  that the order does not change the result of the two loops that mutate while iterating
  over a copy.
\<close>

type_synonym cell = "int \<times> int"

datatype error = IndexError

definition range_py :: "int \<Rightarrow> int \<Rightarrow> int list" where
  \<comment> \<open>\<open>range(a, b)\<close>\<close>
  "range_py a b = [a..b - 1]"

subsection \<open>class Sentence\<close>

record sentence =
  cells :: "cell set"
  count :: int

definition Sentence :: "cell set \<Rightarrow> int \<Rightarrow> sentence" where
  \<comment> \<open>\<open>__init__\<close>: the cell set is copied, so no two sentences share a set.
      \<open>__eq__\<close> compares cells and count, which is equality of records.\<close>
  "Sentence cs n = \<lparr>cells = cs, count = n\<rparr>"

definition known_mines :: "sentence \<Rightarrow> cell set option" where
  \<comment> \<open>lines 104-117; falling off the end of the function returns \<open>None\<close>\<close>
  "known_mines k =
     (if count k = 0 then Some {}
      else if count k = int (card (cells k)) then Some (cells k)
      else None)"

definition known_safes :: "sentence \<Rightarrow> cell set option" where
  \<comment> \<open>lines 119-132\<close>
  "known_safes k =
     (if count k = 0 then Some (cells k)
      else if count k = int (card (cells k)) then Some {}
      else None)"

definition truthy :: "cell set option \<Rightarrow> bool" where
  \<comment> \<open>the truth value Python gives to \<open>None\<close> and to a set in \<open>if x:\<close>\<close>
  "truthy r = (case r of None \<Rightarrow> False | Some x \<Rightarrow> card x \<noteq> 0)"

definition sentence_mark_mine :: "cell \<Rightarrow> sentence \<Rightarrow> sentence" where
  \<comment> \<open>\<open>Sentence.mark_mine\<close>, lines 134-147\<close>
  "sentence_mark_mine c k =
     (if c \<in> cells k then k\<lparr>cells := cells k - {c}, count := count k - 1\<rparr> else k)"

definition sentence_mark_safe :: "cell \<Rightarrow> sentence \<Rightarrow> sentence" where
  \<comment> \<open>\<open>Sentence.mark_safe\<close>, lines 149-159\<close>
  "sentence_mark_safe c k =
     (if c \<in> cells k then k\<lparr>cells := cells k - {c}\<rparr> else k)"

subsection \<open>class MinesweeperAI\<close>

record ai =
  height :: int
  width :: int
  moves_made :: "cell set"
  mines :: "cell set"
  safes :: "cell set"
  knowledge :: "sentence list"

definition MinesweeperAI :: "int \<Rightarrow> int \<Rightarrow> ai" where
  \<comment> \<open>\<open>__init__\<close>, lines 167-181\<close>
  "MinesweeperAI h w =
     \<lparr>height = h, width = w, moves_made = {}, mines = {}, safes = {}, knowledge = []\<rparr>"

definition mark_mine :: "cell \<Rightarrow> ai \<Rightarrow> ai" where
  \<comment> \<open>\<open>MinesweeperAI.mark_mine\<close>, lines 183-190\<close>
  "mark_mine c s =
     s\<lparr>mines := insert c (mines s), knowledge := map (sentence_mark_mine c) (knowledge s)\<rparr>"

definition mark_safe :: "cell \<Rightarrow> ai \<Rightarrow> ai" where
  \<comment> \<open>\<open>MinesweeperAI.mark_safe\<close>, lines 192-199\<close>
  "mark_safe c s =
     s\<lparr>safes := insert c (safes s), knowledge := map (sentence_mark_safe c) (knowledge s)\<rparr>"

definition mark_safe_cells :: "cell set \<Rightarrow> ai \<Rightarrow> ai" where
  \<comment> \<open>lines 298-299: \<open>for cell in x: self.mark_safe(cell)\<close>, \<open>x\<close> a copy\<close>
  "mark_safe_cells x s = fold mark_safe (sorted_list_of_set x) s"

definition mark_mine_cells :: "cell set \<Rightarrow> ai \<Rightarrow> ai" where
  \<comment> \<open>lines 309-310: \<open>for cell in x: self.mark_mine(cell)\<close>, \<open>x\<close> a copy\<close>
  "mark_mine_cells x s = fold mark_mine (sorted_list_of_set x) s"

text \<open>Lines 224-244: the cells around the probed cell and the adjusted count.\<close>

definition neighbour_step :: "ai \<Rightarrow> cell \<Rightarrow> cell \<Rightarrow> cell set \<times> int \<Rightarrow> cell set \<times> int" where
  "neighbour_step s cell ij acc =
     (if ij = cell then acc
      else if 0 \<le> fst ij \<and> fst ij < height s \<and> 0 \<le> snd ij \<and> snd ij < width s then
        (if ij \<notin> mines s then (if ij \<notin> safes s then insert ij (fst acc) else fst acc)
         else fst acc,
         if ij \<in> mines s then snd acc - 1 else snd acc)
      else acc)"

definition around :: "cell \<Rightarrow> cell list" where
  \<comment> \<open>the pairs the two nested \<open>range\<close> loops visit, in their order\<close>
  "around cell =
     List.product (range_py (fst cell - 1) (fst cell + 2)) (range_py (snd cell - 1) (snd cell + 2))"

definition new_sentence :: "ai \<Rightarrow> cell \<Rightarrow> int \<Rightarrow> cell set \<times> int" where
  "new_sentence s cell cnt = fold (neighbour_step s cell) (around cell) ({}, cnt)"

text \<open>
  Lines 246-249: \<open>for sentence in self.knowledge\<close> with \<open>self.knowledge.remove(sentence)\<close>
  in its body. Python's list iterator keeps an index and reads \<open>knowledge[i]\<close> while
  \<open>i < len(knowledge)\<close>; \<open>remove\<close> deletes the first element equal to its argument.
\<close>

function prune_from :: "nat \<Rightarrow> sentence list \<Rightarrow> sentence list" where
  "prune_from i kb =
     (if i < length kb then
        (if card (cells (kb ! i)) = 0 then prune_from (Suc i) (remove1 (kb ! i) kb)
         else prune_from (Suc i) kb)
      else kb)"
  by pat_completeness auto
termination
  by (relation "measure (\<lambda>(i, kb). length kb - i)") (auto simp: length_remove1)

declare prune_from.simps [simp del]

text \<open>
  Lines 260-284, one round of \<open>for i in range(length)\<close>. \<open>cs\<close> and \<open>cnt\<close> are the local
  variables \<open>cells\<close> and \<open>count\<close>; \<open>new_sentence\<close> is \<open>Sentence cs cnt\<close> throughout, since
  nothing marks cells inside this loop.
\<close>

definition subset_step :: "cell set \<Rightarrow> int \<Rightarrow> nat \<Rightarrow> sentence list \<Rightarrow> error + sentence list" where
  "subset_step cs cnt i kb =
     (if i < length kb then
        (if cells (kb ! i) \<noteq> cs then
           (if cells (kb ! i) \<subseteq> cs then
              (let kb1 = kb @ [Sentence (cs - cells (kb ! i)) (cnt - count (kb ! i))]
               in Inr (if Sentence cs cnt \<in> set kb1 then remove1 (Sentence cs cnt) kb1 else kb1))
            else if cs \<subseteq> cells (kb ! i) then
              (let kb1 = kb @ [Sentence (cells (kb ! i) - cs) (count (kb ! i) - cnt)]
               in Inr (remove1 (kb1 ! i) kb1))
            else Inr kb)
         else Inr kb)
      else Inl IndexError)"

function subset_from :: "cell set \<Rightarrow> int \<Rightarrow> nat \<Rightarrow> nat \<Rightarrow> sentence list \<Rightarrow> error + sentence list" where
  "subset_from cs cnt n i kb =
     (if i < n then
        (case subset_step cs cnt i kb of
           Inl e \<Rightarrow> Inl e
         | Inr kb' \<Rightarrow> subset_from cs cnt n (Suc i) kb')
      else Inr kb)"
  by pat_completeness auto
termination
  by (relation "measure (\<lambda>(cs, cnt, n, i, kb). n - i)") auto

declare subset_from.simps [simp del]

definition subset_method :: "cell set \<Rightarrow> int \<Rightarrow> sentence list \<Rightarrow> error + sentence list" where
  \<comment> \<open>lines 256-284: append the new sentence, then the subset loop\<close>
  "subset_method cs cnt kb0 =
     (let kb = kb0 @ [Sentence cs cnt] in subset_from cs cnt (length kb) 0 kb)"

text \<open>
  Lines 287-310, the body of \<open>for sentence in self.knowledge\<close> at index \<open>i\<close>. The marking
  loops change the sentences in place and never the length of the list.
\<close>

definition extract_step :: "nat \<Rightarrow> ai \<Rightarrow> ai" where
  "extract_step i s =
     (let s1 = (if truthy (known_safes (knowledge s ! i)) then
                  (case known_safes (knowledge s ! i) of
                     Some x \<Rightarrow> mark_safe_cells x s | None \<Rightarrow> s)
                else s)
      in (if truthy (known_mines (knowledge s1 ! i)) then
            (case known_mines (knowledge s1 ! i) of
               Some x \<Rightarrow> mark_mine_cells x s1 | None \<Rightarrow> s1)
          else s1))"

lemma length_fold_mark_safe: "length (knowledge (fold mark_safe xs s)) = length (knowledge s)"
  by (induction xs arbitrary: s) (simp_all add: mark_safe_def)

lemma length_fold_mark_mine: "length (knowledge (fold mark_mine xs s)) = length (knowledge s)"
  by (induction xs arbitrary: s) (simp_all add: mark_mine_def)

lemma length_extract_step: "length (knowledge (extract_step i s)) = length (knowledge s)"
  by (simp add: extract_step_def Let_def mark_safe_cells_def mark_mine_cells_def
      length_fold_mark_safe length_fold_mark_mine split: option.splits)

function extract_from :: "nat \<Rightarrow> ai \<Rightarrow> ai" where
  "extract_from i s =
     (if i < length (knowledge s) then extract_from (Suc i) (extract_step i s) else s)"
  by pat_completeness auto
termination
  by (relation "measure (\<lambda>(i, s). length (knowledge s) - i)")
    (auto simp: length_extract_step)

declare extract_from.simps [simp del]

definition add_knowledge :: "cell \<Rightarrow> int \<Rightarrow> ai \<Rightarrow> error + ai" where
  \<comment> \<open>lines 201-310\<close>
  "add_knowledge cell cnt s0 =
     (let s1 = s0\<lparr>moves_made := insert cell (moves_made s0)\<rparr>;
          s2 = mark_safe cell s1;
          new = new_sentence s2 cell cnt;
          s3 = s2\<lparr>knowledge := prune_from 0 (knowledge s2)\<rparr>
      in if card (fst new) \<noteq> 0 then
           (case subset_method (fst new) (snd new) (knowledge s3) of
              Inl e \<Rightarrow> Inl e
            | Inr kb \<Rightarrow> Inr (extract_from 0 (s3\<lparr>knowledge := kb\<rparr>)))
         else Inr s3)"

text \<open>
  Lines 312-328. The loop returns the first cell of \<open>safes\<close>, in the set's iteration order
  (here: increasing), that is not in \<open>moves_made\<close>. The method assigns to nothing, so the
  state it hands back is the one it received.
\<close>

definition make_safe_move :: "ai \<Rightarrow> cell option \<times> ai" where
  "make_safe_move s = (find (\<lambda>x. x \<notin> moves_made s) (sorted_list_of_set (safes s)), s)"

text \<open>
  Lines 330-356. \<open>setall\<close> is a local set; the draw of \<open>random.sample(setall, 1)[0]\<close> is
  the parameter \<open>r\<close>, an index into the elements of \<open>setall\<close>. \<open>random.sample\<close> takes a
  set up to Python 3.10, which is what is modelled; from Python 3.11 on it raises
  \<open>TypeError\<close> on a set, after \<open>setall\<close> is built and without touching the player.
\<close>

definition setall :: "ai \<Rightarrow> cell set" where
  \<comment> \<open>lines 339-347: \<open>i\<close> runs over \<open>range(0, self.width)\<close>, \<open>j\<close> over \<open>range(0, self.height)\<close>\<close>
  "setall s =
     set (List.product (range_py 0 (width s)) (range_py 0 (height s)))
       - moves_made s - safes s - mines s"

definition make_random_move :: "nat \<Rightarrow> ai \<Rightarrow> cell option \<times> ai" where
  "make_random_move r s =
     (if card (setall s) = 0 then (None, s)
      else (Some (sorted_list_of_set (setall s) ! (r mod card (setall s))), s))"

subsection \<open>Sequences of public calls\<close>

datatype call = AddKnowledge cell int | MakeSafeMove | MakeRandomMove nat

fun exec :: "call \<Rightarrow> ai \<Rightarrow> error + ai" where
  "exec (AddKnowledge c n) s = add_knowledge c n s"
| "exec MakeSafeMove s = Inr (snd (make_safe_move s))"
| "exec (MakeRandomMove r) s = Inr (snd (make_random_move r s))"

fun run :: "call list \<Rightarrow> ai \<Rightarrow> error + ai" where
  "run [] s = Inr s"
| "run (c # cs) s = (case exec c s of Inl e \<Rightarrow> Inl e | Inr s' \<Rightarrow> run cs s')"

subsection \<open>class Minesweeper: the board that reports the counts\<close>

text \<open>
  Only what the driver tells the player is modelled: \<open>board[i][j]\<close> is true exactly for the
  cells of \<open>mines\<close> (lines 26-31), so the board is its set of mines, taken as given instead
  of drawn at random. The fields are \<open>height\<close>, \<open>width\<close> and \<open>mines\<close> in the source.
  \<open>nearby_mines\<close> (lines 55-78) runs the same two nested \<open>range\<close> loops as
  \<open>add_knowledge\<close>. \<open>is_mine\<close> is read for cells of the board only.
\<close>

record minesweeper =
  board_height :: int
  board_width :: int
  board_mines :: "cell set"

definition is_mine :: "minesweeper \<Rightarrow> cell \<Rightarrow> bool" where
  \<comment> \<open>lines 51-53\<close>
  "is_mine g cell = (cell \<in> board_mines g)"

definition nearby_step :: "minesweeper \<Rightarrow> cell \<Rightarrow> cell \<Rightarrow> int \<Rightarrow> int" where
  \<comment> \<open>lines 69-76, the body of the two loops\<close>
  "nearby_step g cell ij n =
     (if ij = cell then n
      else if 0 \<le> fst ij \<and> fst ij < board_height g \<and> 0 \<le> snd ij \<and> snd ij < board_width g then
        (if ij \<in> board_mines g then n + 1 else n)
      else n)"

definition nearby_mines :: "minesweeper \<Rightarrow> cell \<Rightarrow> int" where
  "nearby_mines g cell = fold (nearby_step g cell) (around cell) 0"

section \<open>Notions used to state the properties\<close>

subsection \<open>Observations a game really makes\<close>

text \<open>
  A call \<open>add_knowledge(cell, count)\<close> is truthful for a board when the cell is a cell of
  the board that is not a mine and the count is the board's \<open>nearby_mines(cell)\<close>, as the
  docstring of \<open>add_knowledge\<close> asks. The two move queries take no input.
\<close>

definition on_board :: "minesweeper \<Rightarrow> cell \<Rightarrow> bool" where
  "on_board g cell =
     (0 \<le> fst cell \<and> fst cell < board_height g \<and> 0 \<le> snd cell \<and> snd cell < board_width g)"

fun truthful :: "minesweeper \<Rightarrow> call \<Rightarrow> bool" where
  "truthful g (AddKnowledge cell n) = (on_board g cell \<and> \<not> is_mine g cell \<and> n = nearby_mines g cell)"
| "truthful g MakeSafeMove = True"
| "truthful g (MakeRandomMove r) = True"

text \<open>
  A sentence holds on a set of mines \<open>M\<close> when its count is the number of its cells that are
  mines; a state is sound when no safe is a mine, every known mine is one, and every
  sentence holds. \<open>nbrs\<close> is the set of cells the loops of lines 227-235 keep.
\<close>

definition holds :: "cell set \<Rightarrow> sentence \<Rightarrow> bool" where
  "holds M k = (finite (cells k) \<and> count k = int (card (cells k \<inter> M)))"

definition sound :: "cell set \<Rightarrow> ai \<Rightarrow> bool" where
  "sound M s = (safes s \<inter> M = {} \<and> mines s \<subseteq> M \<and> list_all (holds M) (knowledge s))"

definition nbrs :: "int \<Rightarrow> int \<Rightarrow> cell \<Rightarrow> cell set" where
  "nbrs h w cell = {ij \<in> set (around cell). ij \<noteq> cell \<and> 0 \<le> fst ij \<and> fst ij < h \<and> 0 \<le> snd ij \<and> snd ij < w}"

subsection \<open>Sequences of marks on one sentence\<close>

datatype mark = MarkMine cell | MarkSafe cell

fun apply_mark :: "mark \<Rightarrow> sentence \<Rightarrow> sentence" where
  "apply_mark (MarkMine c) k = sentence_mark_mine c k"
| "apply_mark (MarkSafe c) k = sentence_mark_safe c k"

definition count_in_range :: "sentence \<Rightarrow> bool" where
  "count_in_range k = (0 \<le> count k \<and> count k \<le> int (card (cells k)))"

fun allowed :: "sentence \<Rightarrow> mark \<Rightarrow> bool" where
  "allowed k (MarkMine c) = (c \<in> cells k \<longrightarrow> 1 \<le> count k)"
| "allowed k (MarkSafe c) = (c \<in> cells k \<longrightarrow> count k < int (card (cells k)))"

fun allowed_all :: "sentence \<Rightarrow> mark list \<Rightarrow> bool" where
  "allowed_all k [] = True"
| "allowed_all k (m # ms) = (allowed k m \<and> allowed_all (apply_mark m k) ms)"

text \<open>A mark is true on a set of mines when it calls a mine a mine and a safe cell safe.\<close>

fun true_mark :: "cell set \<Rightarrow> mark \<Rightarrow> bool" where
  "true_mark M (MarkMine c) = (c \<in> M)"
| "true_mark M (MarkSafe c) = (c \<notin> M)"

subsection \<open>Empty sentences next to each other\<close>

fun no_adjacent_empty :: "sentence list \<Rightarrow> bool" where
  "no_adjacent_empty (x # y # r) =
     ((card (cells x) \<noteq> 0 \<or> card (cells y) \<noteq> 0) \<and> no_adjacent_empty (y # r))"
| "no_adjacent_empty r = True"

subsection \<open>The cells of the board, in the words of the specification\<close>

definition board_cells :: "ai \<Rightarrow> cell set" where
  \<comment> \<open>\<open>[0, height) x [0, width)\<close>: rows first, as \<open>add_knowledge\<close> checks bounds\<close>
  "board_cells s = set (List.product (range_py 0 (height s)) (range_py 0 (width s)))"

subsection \<open>Small games and states\<close>

text \<open>
  A row of five cells with mines at \<open>(0, 2)\<close> and \<open>(0, 4)\<close>, and the state of the player
  after it was told the counts of \<open>(0, 1)\<close> and \<open>(0, 3)\<close>.
\<close>

definition line_board :: minesweeper where
  "line_board = \<lparr>board_height = 1, board_width = 5, board_mines = {(0, 2), (0, 4)}\<rparr>"

definition line_state :: ai where
  "line_state = \<lparr>height = 1, width = 5, moves_made = {(0, 1), (0, 3)}, mines = {(0, 2), (0, 4)},
     safes = {(0, 1), (0, 3)},
     knowledge = [\<lparr>cells = {(0, 0)}, count = 0\<rparr>, \<lparr>cells = {}, count = 0\<rparr>]\<rparr>"

text \<open>
  A 3 by 5 board with four mines; the player is told the counts of five cells, none twice,
  and \<open>skip_state\<close> is its state afterwards. \<open>skip_knowledge\<close> is the knowledge base when
  the sixth call, on \<open>(2, 3)\<close>, has marked its cell safe and dropped the empty sentences.
\<close>

definition skip_board :: minesweeper where
  "skip_board = \<lparr>board_height = 3, board_width = 5, board_mines = {(0, 1), (1, 0), (1, 2), (1, 4)}\<rparr>"

definition skip_calls :: "call list" where
  "skip_calls = [AddKnowledge (1, 1) 3, AddKnowledge (2, 1) 2, AddKnowledge (0, 4) 1,
     AddKnowledge (0, 0) 2, AddKnowledge (1, 3) 2]"

definition skip_state :: ai where
  "skip_state =
     \<lparr>height = 3, width = 5, moves_made = {(0, 0), (0, 4), (1, 1), (1, 3), (2, 1)},
      mines = {(0, 1), (1, 0)}, safes = {(0, 0), (0, 2), (0, 4), (1, 1), (1, 3), (2, 1)},
      knowledge =
        [\<lparr>cells = {(1, 2), (2, 0), (2, 2)}, count = 1\<rparr>,
         \<lparr>cells = {}, count = 0\<rparr>,
         \<lparr>cells = {(0, 3), (1, 4)}, count = 1\<rparr>,
         \<lparr>cells = {(0, 3), (1, 2), (1, 4), (2, 2), (2, 3), (2, 4)}, count = 2\<rparr>,
         \<lparr>cells = {(1, 2), (2, 2), (2, 3), (2, 4)}, count = 1\<rparr>,
         \<lparr>cells = {}, count = 0\<rparr>]\<rparr>"

definition skip_knowledge :: "sentence list" where
  "skip_knowledge =
     [\<lparr>cells = {(1, 2), (2, 0), (2, 2)}, count = 1\<rparr>,
      \<lparr>cells = {(0, 3), (1, 4)}, count = 1\<rparr>,
      \<lparr>cells = {(0, 3), (1, 2), (1, 4), (2, 2), (2, 4)}, count = 2\<rparr>,
      \<lparr>cells = {(1, 2), (2, 2), (2, 4)}, count = 1\<rparr>]"



text \<open>A board of one row and two columns without mines, after the count of \<open>(0, 0)\<close>.\<close>

definition strip_state :: ai where
  "strip_state = \<lparr>height = 1, width = 2, moves_made = {(0, 0)}, mines = {},
     safes = {(0, 0), (0, 1)}, knowledge = [\<lparr>cells = {}, count = 0\<rparr>]\<rparr>"

section \<open>Properties\<close>

subsection \<open>The marking loops in closed form\<close>

lemma sentence_mark_safe_eq: "sentence_mark_safe c k = k\<lparr>cells := cells k - {c}\<rparr>"
  by (simp add: sentence_mark_safe_def)

lemma fold_mark_safe:
  "fold mark_safe xs s =
     s\<lparr>safes := safes s \<union> set xs,
       knowledge := map (\<lambda>k. k\<lparr>cells := cells k - set xs\<rparr>) (knowledge s)\<rparr>"
proof (induction xs arbitrary: s)
  case Nil
  show ?case by simp
next
  case (Cons x xs)
  have d: "(cells k - {x}) - set xs = cells k - insert x (set xs)" for k :: sentence
    by blast
  have "fold mark_safe (x # xs) s = fold mark_safe xs (mark_safe x s)"
    by simp
  also have "\<dots> = (mark_safe x s)\<lparr>safes := safes (mark_safe x s) \<union> set xs,
       knowledge := map (\<lambda>k. k\<lparr>cells := cells k - set xs\<rparr>) (knowledge (mark_safe x s))\<rparr>"
    by (rule Cons.IH)
  also have "\<dots> = s\<lparr>safes := safes s \<union> set (x # xs),
       knowledge := map (\<lambda>k. k\<lparr>cells := cells k - set (x # xs)\<rparr>) (knowledge s)\<rparr>"
    by (simp add: mark_safe_def sentence_mark_safe_eq o_def d)
  finally show ?case .
qed

lemma mark_mine_then_rest:
  "(sentence_mark_mine x k)\<lparr>cells := cells (sentence_mark_mine x k) - set xs,
       count := count (sentence_mark_mine x k) - int (card (cells (sentence_mark_mine x k) \<inter> set xs))\<rparr>
   = k\<lparr>cells := cells k - insert x (set xs),
        count := count k - int (card (cells k \<inter> insert x (set xs)))\<rparr>"
proof (cases "x \<in> cells k")
  case True
  have e: "cells k \<inter> insert x (set xs) = insert x ((cells k - {x}) \<inter> set xs)"
    using True by blast
  have "card (cells k \<inter> insert x (set xs)) = Suc (card ((cells k - {x}) \<inter> set xs))"
    unfolding e by (rule card_insert_disjoint) auto
  moreover have "cells k - {x} - set xs = cells k - insert x (set xs)"
    by blast
  ultimately show ?thesis
    using True by (simp add: sentence_mark_mine_def)
next
  case False
  then have "cells k \<inter> insert x (set xs) = cells k \<inter> set xs"
    and "cells k - insert x (set xs) = cells k - set xs"
    by blast+
  then show ?thesis
    using False by (simp add: sentence_mark_mine_def)
qed

lemma fold_mark_mine:
  "fold mark_mine xs s =
     s\<lparr>mines := mines s \<union> set xs,
       knowledge := map (\<lambda>k. k\<lparr>cells := cells k - set xs,
                                 count := count k - int (card (cells k \<inter> set xs))\<rparr>) (knowledge s)\<rparr>"
proof (induction xs arbitrary: s)
  case Nil
  show ?case by simp
next
  case (Cons x xs)
  have "fold mark_mine (x # xs) s = fold mark_mine xs (mark_mine x s)"
    by simp
  also have "\<dots> = (mark_mine x s)\<lparr>mines := mines (mark_mine x s) \<union> set xs,
       knowledge := map (\<lambda>k. k\<lparr>cells := cells k - set xs,
                                 count := count k - int (card (cells k \<inter> set xs))\<rparr>)
                      (knowledge (mark_mine x s))\<rparr>"
    by (rule Cons.IH)
  also have "\<dots> = s\<lparr>mines := mines s \<union> set (x # xs),
       knowledge := map (\<lambda>k. k\<lparr>cells := cells k - set (x # xs),
                                 count := count k - int (card (cells k \<inter> set (x # xs)))\<rparr>)
                      (knowledge s)\<rparr>"
    by (simp add: mark_mine_def o_def mark_mine_then_rest)
  finally show ?case .
qed

lemma mark_safe_cells_eq:
  "finite x \<Longrightarrow> mark_safe_cells x s =
     s\<lparr>safes := safes s \<union> x,
       knowledge := map (\<lambda>k. k\<lparr>cells := cells k - x\<rparr>) (knowledge s)\<rparr>"
  by (simp add: mark_safe_cells_def fold_mark_safe)

lemma mark_mine_cells_eq:
  "finite x \<Longrightarrow> mark_mine_cells x s =
     s\<lparr>mines := mines s \<union> x,
       knowledge := map (\<lambda>k. k\<lparr>cells := cells k - x,
                                 count := count k - int (card (cells k \<inter> x))\<rparr>) (knowledge s)\<rparr>"
  by (simp add: mark_mine_cells_def fold_mark_mine)

text \<open>The order in which the copied set is visited does not matter.\<close>

lemma mark_safe_any_order:
  "set xs = set ys \<Longrightarrow> fold mark_safe xs s = fold mark_safe ys s"
  by (simp add: fold_mark_safe)

lemma mark_mine_any_order:
  "set xs = set ys \<Longrightarrow> fold mark_mine xs s = fold mark_mine ys s"
  by (simp add: fold_mark_mine)

lemma range_py_3: "range_py (x - 1) (x + 2) = [x - 1, x, x + 1]"
proof -
  have "[x - 1..x + 1] = (x - 1) # [x..x + 1]"
    by (subst upto.simps) simp
  also have "[x..x + 1] = x # [x + 1..x + 1]"
    by (subst upto.simps) simp
  also have "[x + 1..x + 1] = [x + 1]"
    by simp
  finally show ?thesis
    by (simp add: range_py_def add.commute)
qed

lemma around_eq:
  "around (r, c) =
     [(r - 1, c - 1), (r - 1, c), (r - 1, c + 1),
      (r, c - 1), (r, c), (r, c + 1),
      (r + 1, c - 1), (r + 1, c), (r + 1, c + 1)]"
  by (simp add: around_def range_py_3)

subsection \<open>Marking a cell in one sentence\<close>

text \<open>
  C9. \<open>Sentence.mark_mine(cell)\<close> removes the cell and lowers the count by one when the
  cell is in the sentence, and changes nothing otherwise; \<open>Sentence.mark_safe(cell)\<close>
  removes the cell and keeps the count when the cell is in the sentence, and changes
  nothing otherwise.
\<close>

theorem sentence_mark_effect:
  "(c \<in> cells k \<longrightarrow> sentence_mark_mine c k = \<lparr>cells = cells k - {c}, count = count k - 1\<rparr>) \<and>
   (c \<notin> cells k \<longrightarrow> sentence_mark_mine c k = k) \<and>
   (c \<in> cells k \<longrightarrow> sentence_mark_safe c k = \<lparr>cells = cells k - {c}, count = count k\<rparr>) \<and>
   (c \<notin> cells k \<longrightarrow> sentence_mark_safe c k = k)"
  by (cases k) (simp add: sentence_mark_mine_def sentence_mark_safe_def)

theorem sentence_mark_effect_witness:
  "sentence_mark_mine (0, 0) \<lparr>cells = {(0, 0), (0, 1)}, count = 1\<rparr> = \<lparr>cells = {(0, 1)}, count = 0\<rparr> \<and>
   sentence_mark_mine (2, 2) \<lparr>cells = {(0, 0), (0, 1)}, count = 1\<rparr> = \<lparr>cells = {(0, 0), (0, 1)}, count = 1\<rparr> \<and>
   sentence_mark_safe (0, 0) \<lparr>cells = {(0, 0), (0, 1)}, count = 1\<rparr> = \<lparr>cells = {(0, 1)}, count = 1\<rparr> \<and>
   sentence_mark_safe (2, 2) \<lparr>cells = {(0, 0), (0, 1)}, count = 1\<rparr> = \<lparr>cells = {(0, 0), (0, 1)}, count = 1\<rparr>"
  using sentence_mark_effect [of "(0, 0)" "\<lparr>cells = {(0, 0), (0, 1)}, count = 1\<rparr>"]
    sentence_mark_effect [of "(2, 2)" "\<lparr>cells = {(0, 0), (0, 1)}, count = 1\<rparr>"]
  by simp

subsection \<open>The two move queries\<close>

text \<open>
  C10. \<open>make_safe_move\<close> and \<open>make_random_move\<close> hand back the state they were given:
  moves made, safes, mines and every sentence of the knowledge base are the same before
  and after the call, in every state.
\<close>

theorem moves_leave_state:
  "snd (make_safe_move s) = s \<and> snd (make_random_move r s) = s"
  by (simp add: make_safe_move_def make_random_move_def)

subsection \<open>The subset loop never reads past the end of the list\<close>

lemma subset_step_returns:
  assumes "i < length kb"
  shows "\<exists>kb'. subset_step cs cnt i kb = Inr kb' \<and> length kb \<le> length kb'"
  using assms by (auto simp: subset_step_def Let_def length_remove1)

lemma subset_from_returns:
  "n \<le> length kb \<Longrightarrow> \<exists>kb'. subset_from cs cnt n i kb = Inr kb'"
proof (induction cs cnt n i kb rule: subset_from.induct)
  case (1 cs cnt n i kb)
  show ?case
  proof (cases "i < n")
    case True
    with "1.prems" have "i < length kb" by simp
    then obtain kb1 where s: "subset_step cs cnt i kb = Inr kb1" and l: "length kb \<le> length kb1"
      using subset_step_returns by blast
    from "1.IH" [OF True s] l "1.prems"
    obtain kb' where "subset_from cs cnt n (Suc i) kb1 = Inr kb'" by auto
    with True s show ?thesis by (simp add: subset_from.simps [of cs cnt n i kb])
  next
    case False
    then show ?thesis by (simp add: subset_from.simps [of cs cnt n i kb])
  qed
qed

lemma subset_method_returns: "\<exists>kb'. subset_method cs cnt kb = Inr kb'"
  by (simp add: subset_method_def Let_def subset_from_returns)

lemma add_knowledge_returns: "\<exists>s'. add_knowledge cell cnt s = Inr s'"
proof -
  obtain kb' where
    "subset_method (fst (new_sentence (mark_safe cell (s\<lparr>moves_made := insert cell (moves_made s)\<rparr>)) cell cnt))
       (snd (new_sentence (mark_safe cell (s\<lparr>moves_made := insert cell (moves_made s)\<rparr>)) cell cnt))
       (prune_from 0 (knowledge (mark_safe cell (s\<lparr>moves_made := insert cell (moves_made s)\<rparr>)))) = Inr kb'"
    using subset_method_returns by blast
  then show ?thesis
    by (simp add: add_knowledge_def Let_def)
qed

subsection \<open>What extraction leaves alone\<close>

lemma extract_step_frame:
  "moves_made (extract_step i s) = moves_made s \<and> height (extract_step i s) = height s \<and>
   width (extract_step i s) = width s \<and> safes s \<subseteq> safes (extract_step i s) \<and>
   mines s \<subseteq> mines (extract_step i s)"
  by (auto simp: extract_step_def Let_def mark_safe_cells_def mark_mine_cells_def
      fold_mark_safe fold_mark_mine split: option.splits)

lemma extract_from_frame:
  "moves_made (extract_from i s) = moves_made s \<and> height (extract_from i s) = height s \<and>
   width (extract_from i s) = width s \<and> safes s \<subseteq> safes (extract_from i s) \<and>
   mines s \<subseteq> mines (extract_from i s)"
proof (induction i s rule: extract_from.induct)
  case (1 i s)
  show ?case
  proof (cases "i < length (knowledge s)")
    case True
    from "1.IH" [OF True] extract_step_frame [of i s] show ?thesis
      by (subst (1 2 3 4 5) extract_from.simps) (use True in auto)
  next
    case False
    then show ?thesis by (subst (1 2 3 4 5) extract_from.simps) simp
  qed
qed

subsection \<open>What every call of \<open>add_knowledge\<close> does\<close>

lemma add_knowledge_result:
  "\<exists>s'. add_knowledge cell cnt s = Inr s' \<and> cell \<in> moves_made s' \<and> cell \<in> safes s' \<and>
        height s' = height s \<and> width s' = width s"
proof -
  define s2 where "s2 = mark_safe cell (s\<lparr>moves_made := insert cell (moves_made s)\<rparr>)"
  define new where "new = new_sentence s2 cell cnt"
  define s3 where "s3 = s2\<lparr>knowledge := prune_from 0 (knowledge s2)\<rparr>"
  have base: "cell \<in> moves_made s3" "cell \<in> safes s3" "height s3 = height s" "width s3 = width s"
    by (simp_all add: s3_def s2_def mark_safe_def)
  show ?thesis
  proof (cases "card (fst new) \<noteq> 0")
    case False
    then have "add_knowledge cell cnt s = Inr s3"
      by (simp add: add_knowledge_def Let_def s3_def new_def s2_def)
    with base show ?thesis by simp
  next
    case True
    obtain kb where kb: "subset_method (fst new) (snd new) (knowledge s3) = Inr kb"
      using subset_method_returns by blast
    with True have "add_knowledge cell cnt s = Inr (extract_from 0 (s3\<lparr>knowledge := kb\<rparr>))"
      by (simp add: add_knowledge_def Let_def s3_def new_def s2_def)
    moreover from base extract_from_frame [of 0 "s3\<lparr>knowledge := kb\<rparr>"]
    have "cell \<in> moves_made (extract_from 0 (s3\<lparr>knowledge := kb\<rparr>))"
      "cell \<in> safes (extract_from 0 (s3\<lparr>knowledge := kb\<rparr>))"
      "height (extract_from 0 (s3\<lparr>knowledge := kb\<rparr>)) = height s"
      "width (extract_from 0 (s3\<lparr>knowledge := kb\<rparr>)) = width s"
      by auto
    ultimately show ?thesis by simp
  qed
qed

subsection \<open>Cells outside the board\<close>

text \<open>
  C6 (as the code has it). \<open>add_knowledge\<close> checks no bounds: for every cell, inside the
  board or not, and every count, it returns normally, and the cell is then among the moves
  made and among the safes. No call is rejected and the state is not left unchanged.
\<close>

theorem add_knowledge_accepts_any_cell:
  "\<exists>s'. add_knowledge cell cnt s = Inr s' \<and> cell \<in> moves_made s' \<and> cell \<in> safes s' \<and>
        height s' = height s \<and> width s' = width s"
  by (rule add_knowledge_result)

text \<open>
  C6 as stated fails. A cell below the last row of a 3 by 3 board is taken like any
  other: the call returns, the cell is a move made and a safe, and a sentence about the
  last row is added.
\<close>

theorem out_of_board_cell_is_recorded:
  "add_knowledge (3, 1) 1 (MinesweeperAI 3 3) =
     Inr \<lparr>height = 3, width = 3, moves_made = {(3, 1)}, mines = {}, safes = {(3, 1)},
          knowledge = [\<lparr>cells = {(2, 0), (2, 1), (2, 2)}, count = 1\<rparr>]\<rparr>"
  by code_simp

subsection \<open>A sentence with count zero\<close>

lemma extract_step_zero:
  assumes "finite (cells (knowledge s ! i))" "count (knowledge s ! i) = 0"
  shows "cells (knowledge s ! i) \<subseteq> safes (extract_step i s)"
proof (cases "card (cells (knowledge s ! i)) = 0")
  case True
  with assms have "cells (knowledge s ! i) = {}" by simp
  then show ?thesis by simp
next
  case False
  define s1 where "s1 = mark_safe_cells (cells (knowledge s ! i)) s"
  have s1: "cells (knowledge s ! i) \<subseteq> safes s1"
    using assms by (simp add: s1_def mark_safe_cells_eq)
  have "safes (extract_step i s) = safes s1"
    using assms False
    by (auto simp: extract_step_def Let_def known_safes_def truthy_def s1_def
        mark_mine_cells_def fold_mark_mine split: option.splits)
  with s1 show ?thesis by simp
qed

text \<open>
  In every state: when the extraction loop is at a sentence whose count is zero, every
  cell of that sentence is among the safes when the loop ends.
\<close>

lemma zero_count_when_reached:
  assumes "i < length (knowledge s)" "finite (cells (knowledge s ! i))" "count (knowledge s ! i) = 0"
  shows "cells (knowledge s ! i) \<subseteq> safes (extract_from i s)"
proof -
  have "extract_from i s = extract_from (Suc i) (extract_step i s)"
    using assms(1) by (subst extract_from.simps) simp
  moreover have "safes (extract_step i s) \<subseteq> safes (extract_from (Suc i) (extract_step i s))"
    using extract_from_frame by blast
  ultimately show ?thesis
    using extract_step_zero [OF assms(2,3)] by auto
qed

subsection \<open>The count of a sentence under marking\<close>

lemma apply_mark_finite: "finite (cells k) \<Longrightarrow> finite (cells (apply_mark m k))"
  by (cases m) (simp_all add: sentence_mark_mine_def sentence_mark_safe_def)

lemma apply_mark_in_range:
  assumes "finite (cells k)" "count_in_range k" "allowed k m"
  shows "count_in_range (apply_mark m k)"
proof (cases m)
  case (MarkMine c)
  show ?thesis
  proof (cases "c \<in> cells k")
    case True
    then have "card (cells k - {c}) = card (cells k) - 1" "0 < card (cells k)"
      using assms(1) by (auto simp: card_gt_0_iff)
    with assms True MarkMine show ?thesis
      by (simp add: count_in_range_def sentence_mark_mine_def)
  next
    case False
    with assms MarkMine show ?thesis by (simp add: sentence_mark_mine_def)
  qed
next
  case (MarkSafe c)
  show ?thesis
  proof (cases "c \<in> cells k")
    case True
    then have "card (cells k - {c}) = card (cells k) - 1" "0 < card (cells k)"
      using assms(1) by (auto simp: card_gt_0_iff)
    with assms True MarkSafe show ?thesis
      by (simp add: count_in_range_def sentence_mark_safe_def)
  next
    case False
    with assms MarkSafe show ?thesis by (simp add: sentence_mark_safe_def)
  qed
qed

lemma apply_marks_in_range:
  "finite (cells k) \<Longrightarrow> count_in_range k \<Longrightarrow> allowed_all k ms \<Longrightarrow>
   count_in_range (fold apply_mark ms k)"
  by (induction ms arbitrary: k) (simp_all add: apply_mark_in_range apply_mark_finite)

lemma allowed_all_take: "allowed_all k ms \<Longrightarrow> allowed_all k (take n ms)"
proof (induction ms arbitrary: k n)
  case Nil
  then show ?case by simp
next
  case (Cons m ms)
  then show ?case by (cases n) simp_all
qed

text \<open>
  C3 (as the code has it). From a sentence with \<open>0 \<le> count \<le> |cells|\<close>, the bounds hold
  after each call of a sequence of \<open>mark_mine\<close> and \<open>mark_safe\<close> calls in which
  \<open>mark_mine\<close> is called on a member only while the count is at least one, and
  \<open>mark_safe\<close> on a member only while the count is below the number of cells.
\<close>

theorem marks_keep_count_in_range:
  assumes "finite (cells k)" and "count_in_range k" and "allowed_all k ms"
  shows "count_in_range (fold apply_mark (take n ms) k)"
  using assms by (intro apply_marks_in_range allowed_all_take)

theorem marks_keep_count_in_range_witness:
  "finite (cells \<lparr>cells = {(0, 0), (0, 1), (1, 1)}, count = 1\<rparr>) \<and>
   count_in_range \<lparr>cells = {(0, 0), (0, 1), (1, 1)}, count = 1\<rparr> \<and>
   allowed_all \<lparr>cells = {(0, 0), (0, 1), (1, 1)}, count = 1\<rparr> [MarkSafe (0, 0), MarkMine (0, 1), MarkSafe (1, 1)] \<and>
   count_in_range (fold apply_mark (take 2 [MarkSafe (0, 0), MarkMine (0, 1), MarkSafe (1, 1)])
      \<lparr>cells = {(0, 0), (0, 1), (1, 1)}, count = 1\<rparr>)"
proof -
  have f: "finite (cells \<lparr>cells = {(0, 0), (0, 1), (1, 1)}, count = 1\<rparr>)" by simp
  have r: "count_in_range \<lparr>cells = {(0, 0), (0, 1), (1, 1)}, count = 1\<rparr>"
    by (simp add: count_in_range_def)
  have a: "allowed_all \<lparr>cells = {(0, 0), (0, 1), (1, 1)}, count = 1\<rparr>
      [MarkSafe (0, 0), MarkMine (0, 1), MarkSafe (1, 1)]"
    by (simp add: sentence_mark_safe_def sentence_mark_mine_def)
  from marks_keep_count_in_range [OF f r a, of 2] f r a show ?thesis by blast
qed

text \<open>
  C3 without the side conditions fails: \<open>mark_mine\<close> on a member of a sentence
  with count zero gives count \<open>-1\<close>, and \<open>mark_safe\<close> on the only cell of a
  sentence with count one leaves count one over an empty cell set.
\<close>

theorem marks_break_count_range:
  "count_in_range \<lparr>cells = {(0, 0), (0, 1)}, count = 0\<rparr> \<and>
   count (sentence_mark_mine (0, 0) \<lparr>cells = {(0, 0), (0, 1)}, count = 0\<rparr>) < 0 \<and>
   count_in_range \<lparr>cells = {(0, 0)}, count = 1\<rparr> \<and>
   int (card (cells (sentence_mark_safe (0, 0) \<lparr>cells = {(0, 0)}, count = 1\<rparr>)))
     < count (sentence_mark_safe (0, 0) \<lparr>cells = {(0, 0)}, count = 1\<rparr>)"
  by (simp add: count_in_range_def sentence_mark_mine_def sentence_mark_safe_def)

text \<open>
  The side conditions are the weakest ones: a call that violates its condition on a sentence
  within the bounds leaves the bounds. They hold along every sequence of true marks on a
  sentence that holds, which is how \<open>add_knowledge\<close> uses the two methods when its
  input is truthful.
\<close>

lemma apply_mark_out_of_range:
  assumes "finite (cells k)" "count_in_range k" "\<not> allowed k m"
  shows "\<not> count_in_range (apply_mark m k)"
proof (cases m)
  case (MarkMine c)
  with assms show ?thesis
    by (auto simp: count_in_range_def sentence_mark_mine_def)
next
  case (MarkSafe c)
  with assms(3) have c: "c \<in> cells k" "int (card (cells k)) \<le> count k" by auto
  then have "card (cells k - {c}) < card (cells k)"
    using assms(1) by (intro card_Diff1_less)
  with c MarkSafe show ?thesis
    by (simp add: count_in_range_def sentence_mark_safe_def)
qed

lemma true_mark_holds:
  assumes "holds M k" "true_mark M m"
  shows "holds M (apply_mark m k)"
proof (cases m)
  case (MarkSafe c)
  then have "c \<notin> M" using assms(2) by simp
  then have "(cells k - {c}) \<inter> M = cells k \<inter> M" by auto
  with assms(1) MarkSafe show ?thesis by (simp add: holds_def sentence_mark_safe_def)
next
  case (MarkMine c)
  then have m: "c \<in> M" using assms(2) by simp
  show ?thesis
  proof (cases "c \<in> cells k")
    case False
    with assms(1) MarkMine show ?thesis by (simp add: sentence_mark_mine_def)
  next
    case True
    have fin: "finite (cells k)" using assms(1) by (simp add: holds_def)
    have "cells k \<inter> M = insert c ((cells k - {c}) \<inter> M)" using True m by auto
    moreover have "card (insert c ((cells k - {c}) \<inter> M)) = Suc (card ((cells k - {c}) \<inter> M))"
      using fin by (intro card_insert_disjoint) auto
    ultimately have "int (card ((cells k - {c}) \<inter> M)) = int (card (cells k \<inter> M)) - 1" by simp
    with assms(1) True MarkMine fin show ?thesis by (simp add: holds_def sentence_mark_mine_def)
  qed
qed

lemma true_mark_allowed:
  assumes "holds M k" "true_mark M m"
  shows "allowed k m"
proof (cases m)
  case (MarkMine c)
  show ?thesis
  proof (cases "c \<in> cells k")
    case False
    with MarkMine show ?thesis by simp
  next
    case True
    with assms MarkMine have "c \<in> cells k \<inter> M" "finite (cells k \<inter> M)" by (auto simp: holds_def)
    then have "0 < card (cells k \<inter> M)" by (auto simp: card_gt_0_iff)
    with assms(1) MarkMine show ?thesis by (simp add: holds_def)
  qed
next
  case (MarkSafe c)
  show ?thesis
  proof (cases "c \<in> cells k")
    case False
    with MarkSafe show ?thesis by simp
  next
    case True
    have fin: "finite (cells k)" using assms(1) by (simp add: holds_def)
    have "cells k \<inter> M \<subseteq> cells k - {c}" using assms(2) MarkSafe by auto
    then have "card (cells k \<inter> M) \<le> card (cells k - {c})" using fin by (intro card_mono) auto
    also have "\<dots> < card (cells k)" using fin True by (intro card_Diff1_less)
    finally show ?thesis using assms(1) MarkSafe by (simp add: holds_def)
  qed
qed

lemma true_marks_allowed:
  "holds M k \<Longrightarrow> list_all (true_mark M) ms \<Longrightarrow> allowed_all k ms"
  by (induction ms arbitrary: k) (simp_all add: true_mark_allowed true_mark_holds)

lemma holds_count_in_range: "holds M k \<Longrightarrow> count_in_range k"
proof -
  assume h: "holds M k"
  then have "card (cells k \<inter> M) \<le> card (cells k)" by (intro card_mono) (auto simp: holds_def)
  with h show ?thesis by (simp add: holds_def count_in_range_def)
qed

subsection \<open>Removing empty sentences\<close>

lemma no_adjacent_empty_tl: "no_adjacent_empty (x # r) \<Longrightarrow> no_adjacent_empty r"
  by (cases r) simp_all

lemma prune_from_append:
  "\<forall>k \<in> set pre. card (cells k) \<noteq> 0 \<Longrightarrow> no_adjacent_empty post \<Longrightarrow>
   prune_from (length pre) (pre @ post) = pre @ filter (\<lambda>k. card (cells k) \<noteq> 0) post"
proof (induction "length post" arbitrary: pre post rule: less_induct)
  case less
  show ?case
  proof (cases post)
    case Nil
    then show ?thesis by (subst prune_from.simps) simp
  next
    case (Cons x r)
    have here: "(pre @ post) ! length pre = x" "length pre < length (pre @ post)"
      using Cons by simp_all
    show ?thesis
    proof (cases "card (cells x) = 0")
      case False
      have "prune_from (length pre) (pre @ post) = prune_from (length (pre @ [x])) ((pre @ [x]) @ r)"
        using here False Cons by (subst prune_from.simps) simp
      also have "\<dots> = (pre @ [x]) @ filter (\<lambda>k. card (cells k) \<noteq> 0) r"
        using less.prems False Cons no_adjacent_empty_tl [of x r]
        by (intro less.hyps) auto
      finally show ?thesis using False Cons by simp
    next
      case True
      then have "x \<notin> set pre" using less.prems(1) by auto
      then have rm: "remove1 x (pre @ post) = pre @ r"
        using Cons by (simp add: remove1_append)
      have step: "prune_from (length pre) (pre @ post) = prune_from (Suc (length pre)) (pre @ r)"
        using here True rm by (subst prune_from.simps) simp
      show ?thesis
      proof (cases r)
        case Nil
        with step True Cons show ?thesis
          by (simp add: prune_from.simps [of "Suc (length pre)" pre])
      next
        case (Cons y r')
        with less.prems(2) True \<open>post = x # r\<close> have y: "card (cells y) \<noteq> 0" and r': "no_adjacent_empty r'"
          using no_adjacent_empty_tl [of y r'] by auto
        have "prune_from (Suc (length pre)) (pre @ r) = prune_from (length (pre @ [y])) ((pre @ [y]) @ r')"
          using Cons by simp
        also have "\<dots> = (pre @ [y]) @ filter (\<lambda>k. card (cells k) \<noteq> 0) r'"
          using less.prems(1) y r' Cons \<open>post = x # r\<close>
          by (intro less.hyps) auto
        finally show ?thesis using step True y Cons \<open>post = x # r\<close> by simp
      qed
    qed
  qed
qed

text \<open>
  C7 (as the code has it). Empty sentences are removed in one pass near the start of
  \<open>add_knowledge\<close> (lines 246-249), after the probed cell is marked safe, before the new
  sentence is added and before the extraction loop marks cells. Where no two sentences
  with an empty cell set stand next to each other in the list, that pass removes exactly
  the sentences with an empty cell set and keeps the others in order.
\<close>

theorem prune_removes_separated_empties:
  assumes "no_adjacent_empty kb"
  shows "prune_from 0 kb = filter (\<lambda>k. card (cells k) \<noteq> 0) kb"
  using prune_from_append [of "[]" kb] assms by simp

theorem prune_removes_separated_empties_witness:
  "no_adjacent_empty [\<lparr>cells = {}, count = 0\<rparr>, \<lparr>cells = {(0, 0)}, count = 1\<rparr>, \<lparr>cells = {}, count = 0\<rparr>] \<and>
   prune_from 0 [\<lparr>cells = {}, count = 0\<rparr>, \<lparr>cells = {(0, 0)}, count = 1\<rparr>, \<lparr>cells = {}, count = 0\<rparr>]
     = [\<lparr>cells = {(0, 0)}, count = 1\<rparr>]"
  using prune_removes_separated_empties
    [of "[\<lparr>cells = {}, count = 0\<rparr>, \<lparr>cells = {(0, 0)}, count = 1\<rparr>, \<lparr>cells = {}, count = 0\<rparr>]"]
  by simp

text \<open>
  C7 as stated fails: a sentence emptied by the marking of the same call is still in the
  knowledge base when the call returns.
\<close>

theorem empty_sentence_after_return:
  "add_knowledge (1, 1) 0 (MinesweeperAI 3 3) =
     Inr \<lparr>height = 3, width = 3, moves_made = {(1, 1)}, mines = {},
          safes = {(0, 0), (0, 1), (0, 2), (1, 0), (1, 1), (1, 2), (2, 0), (2, 1), (2, 2)},
          knowledge = [\<lparr>cells = {}, count = 0\<rparr>]\<rparr> \<and>
   cells (hd (knowledge \<lparr>height = 3, width = 3, moves_made = {(1, 1)}, mines = {},
          safes = {(0, 0), (0, 1), (0, 2), (1, 0), (1, 1), (1, 2), (2, 0), (2, 1), (2, 2)},
          knowledge = [\<lparr>cells = {}, count = 0\<rparr>]\<rparr>)) = {}"
  by code_simp

subsection \<open>The new sentence is true of the board\<close>

lemma distinct_around: "distinct (around cell)"
  by (cases cell) (simp add: around_eq)

lemma card_filter_Cons:
  assumes "a \<notin> set xs"
  shows "card {x \<in> set (a # xs). P x} =
    (if P a then Suc (card {x \<in> set xs. P x}) else card {x \<in> set xs. P x})"
proof (cases "P a")
  case True
  then have "{x \<in> set (a # xs). P x} = insert a {x \<in> set xs. P x}" by auto
  moreover have "a \<notin> {x \<in> set xs. P x}" "finite {x \<in> set xs. P x}"
    using assms by auto
  ultimately show ?thesis using True by simp
next
  case False
  then have "{x \<in> set (a # xs). P x} = {x \<in> set xs. P x}" by auto
  with False show ?thesis by simp
qed

lemma set_filter_Cons:
  "{x \<in> set (a # xs). P x} = (if P a then insert a {x \<in> set xs. P x} else {x \<in> set xs. P x})"
  by auto

lemma fold_neighbour_step:
  "distinct xs \<Longrightarrow>
   fold (neighbour_step s cell) xs acc =
     (fst acc \<union> {ij \<in> set xs. ij \<noteq> cell \<and> 0 \<le> fst ij \<and> fst ij < height s \<and> 0 \<le> snd ij \<and> snd ij < width s
                \<and> ij \<notin> mines s \<and> ij \<notin> safes s},
      snd acc - int (card {ij \<in> set xs. ij \<noteq> cell \<and> 0 \<le> fst ij \<and> fst ij < height s \<and> 0 \<le> snd ij \<and> snd ij < width s
                \<and> ij \<in> mines s}))"
proof (induction xs arbitrary: acc)
  case Nil
  show ?case by simp
next
  case (Cons a xs)
  let ?P = "\<lambda>ij. ij \<noteq> cell \<and> 0 \<le> fst ij \<and> fst ij < height s \<and> 0 \<le> snd ij \<and> snd ij < width s \<and> ij \<in> mines s"
  let ?Q = "\<lambda>ij. ij \<noteq> cell \<and> 0 \<le> fst ij \<and> fst ij < height s \<and> 0 \<le> snd ij \<and> snd ij < width s \<and> ij \<notin> mines s \<and> ij \<notin> safes s"
  have c: "card {ij \<in> set (a # xs). ?P ij} = (if ?P a then Suc (card {ij \<in> set xs. ?P ij}) else card {ij \<in> set xs. ?P ij})"
    using Cons.prems by (intro card_filter_Cons) simp
  have u: "{ij \<in> set (a # xs). ?Q ij} = (if ?Q a then insert a {ij \<in> set xs. ?Q ij} else {ij \<in> set xs. ?Q ij})"
    by (rule set_filter_Cons)
  have d: "distinct xs" using Cons.prems by simp
  have f: "fst (neighbour_step s cell a acc) = (if ?Q a then insert a (fst acc) else fst acc)"
    by (simp add: neighbour_step_def)
  have g: "snd (neighbour_step s cell a acc) = (if ?P a then snd acc - 1 else snd acc)"
    by (simp add: neighbour_step_def)
  have "fold (neighbour_step s cell) (a # xs) acc = fold (neighbour_step s cell) xs (neighbour_step s cell a acc)"
    by simp
  also have "\<dots> = (fst (neighbour_step s cell a acc) \<union> {ij \<in> set xs. ?Q ij},
      snd (neighbour_step s cell a acc) - int (card {ij \<in> set xs. ?P ij}))"
    by (rule Cons.IH [OF d])
  also have "\<dots> = (fst acc \<union> {ij \<in> set (a # xs). ?Q ij}, snd acc - int (card {ij \<in> set (a # xs). ?P ij}))"
    unfolding c u f g by simp
  finally show ?case .
qed

lemma new_sentence_eq:
  "new_sentence s cell cnt =
     ({ij \<in> nbrs (height s) (width s) cell. ij \<notin> mines s \<and> ij \<notin> safes s},
      cnt - int (card {ij \<in> nbrs (height s) (width s) cell. ij \<in> mines s}))"
proof -
  have 1: "{ij \<in> nbrs (height s) (width s) cell. ij \<notin> mines s \<and> ij \<notin> safes s}
      = {ij \<in> set (around cell). ij \<noteq> cell \<and> 0 \<le> fst ij \<and> fst ij < height s \<and> 0 \<le> snd ij \<and> snd ij < width s
                \<and> ij \<notin> mines s \<and> ij \<notin> safes s}"
    by (auto simp: nbrs_def)
  have 2: "{ij \<in> nbrs (height s) (width s) cell. ij \<in> mines s}
      = {ij \<in> set (around cell). ij \<noteq> cell \<and> 0 \<le> fst ij \<and> fst ij < height s \<and> 0 \<le> snd ij \<and> snd ij < width s
                \<and> ij \<in> mines s}"
    by (auto simp: nbrs_def)
  show ?thesis
    unfolding new_sentence_def 1 2 fold_neighbour_step [OF distinct_around] by simp
qed

lemma fold_nearby_step:
  "distinct xs \<Longrightarrow>
   fold (nearby_step g cell) xs n =
     n + int (card {ij \<in> set xs. ij \<noteq> cell \<and> 0 \<le> fst ij \<and> fst ij < board_height g \<and> 0 \<le> snd ij \<and> snd ij < board_width g
                \<and> ij \<in> board_mines g})"
proof (induction xs arbitrary: n)
  case Nil
  show ?case by simp
next
  case (Cons a xs)
  let ?P = "\<lambda>ij. ij \<noteq> cell \<and> 0 \<le> fst ij \<and> fst ij < board_height g \<and> 0 \<le> snd ij \<and> snd ij < board_width g \<and> ij \<in> board_mines g"
  have c: "card {ij \<in> set (a # xs). ?P ij} = (if ?P a then Suc (card {ij \<in> set xs. ?P ij}) else card {ij \<in> set xs. ?P ij})"
    using Cons.prems by (intro card_filter_Cons) simp
  have d: "distinct xs" using Cons.prems by simp
  have g: "nearby_step g cell a n = (if ?P a then n + 1 else n)"
    by (simp add: nearby_step_def)
  have "fold (nearby_step g cell) (a # xs) n = fold (nearby_step g cell) xs (nearby_step g cell a n)"
    by simp
  also have "\<dots> = nearby_step g cell a n + int (card {ij \<in> set xs. ?P ij})"
    by (rule Cons.IH [OF d])
  also have "\<dots> = n + int (card {ij \<in> set (a # xs). ?P ij})"
    unfolding c g by simp
  finally show ?case .
qed

lemma nearby_mines_eq:
  "nearby_mines g cell = int (card (nbrs (board_height g) (board_width g) cell \<inter> board_mines g))"
proof -
  have "nbrs (board_height g) (board_width g) cell \<inter> board_mines g
      = {ij \<in> set (around cell). ij \<noteq> cell \<and> 0 \<le> fst ij \<and> fst ij < board_height g \<and> 0 \<le> snd ij \<and> snd ij < board_width g
                \<and> ij \<in> board_mines g}"
    by (auto simp: nbrs_def)
  then show ?thesis
    unfolding nearby_mines_def fold_nearby_step [OF distinct_around] by simp
qed

lemma finite_nbrs: "finite (nbrs h w cell)"
  by (simp add: nbrs_def)

lemma new_sentence_holds:
  assumes "safes s \<inter> M = {}" "mines s \<subseteq> M"
    and "cnt = int (card (nbrs (height s) (width s) cell \<inter> M))"
  shows "holds M (Sentence (fst (new_sentence s cell cnt)) (snd (new_sentence s cell cnt)))"
proof -
  let ?N = "nbrs (height s) (width s) cell"
  let ?U = "{ij \<in> ?N. ij \<notin> mines s \<and> ij \<notin> safes s}"
  let ?K = "{ij \<in> ?N. ij \<in> mines s}"
  have fin: "finite ?N" by (rule finite_nbrs)
  have split: "?N \<inter> M = (?U \<inter> M) \<union> ?K" and disj: "(?U \<inter> M) \<inter> ?K = {}"
    using assms(1,2) by auto
  have "card (?N \<inter> M) = card (?U \<inter> M) + card ?K"
    unfolding split using fin disj by (intro card_Un_disjoint) auto
  then have "int (card (?U \<inter> M)) = cnt - int (card ?K)"
    using assms(3) by simp
  moreover have "finite ?U" using fin by simp
  ultimately show ?thesis
    by (simp add: new_sentence_eq holds_def Sentence_def)
qed

subsection \<open>Every step of \<open>add_knowledge\<close> keeps a sound state sound\<close>

lemma sound_mark_safe_cells:
  assumes "sound M s" "finite x" "x \<inter> M = {}"
  shows "sound M (mark_safe_cells x s)"
proof -
  have "holds M (k\<lparr>cells := cells k - x\<rparr>)" if "holds M k" for k
  proof -
    have "(cells k - x) \<inter> M = cells k \<inter> M" using assms(3) by auto
    with that show ?thesis by (simp add: holds_def)
  qed
  with assms show ?thesis
    by (auto simp: sound_def mark_safe_cells_eq list_all_iff)
qed

lemma sound_mark_mine_cells:
  assumes "sound M s" "finite x" "x \<subseteq> M"
  shows "sound M (mark_mine_cells x s)"
proof -
  have "holds M (k\<lparr>cells := cells k - x, count := count k - int (card (cells k \<inter> x))\<rparr>)"
    if "holds M k" for k
  proof -
    have fin: "finite (cells k)" using that by (simp add: holds_def)
    have split: "cells k \<inter> M = ((cells k - x) \<inter> M) \<union> (cells k \<inter> x)"
      and disj: "((cells k - x) \<inter> M) \<inter> (cells k \<inter> x) = {}"
      using assms(3) by auto
    have "card (cells k \<inter> M) = card ((cells k - x) \<inter> M) + card (cells k \<inter> x)"
      unfolding split using fin disj by (intro card_Un_disjoint) auto
    with that fin show ?thesis by (simp add: holds_def)
  qed
  with assms show ?thesis
    by (auto simp: sound_def mark_mine_cells_eq list_all_iff)
qed

lemma sound_mark_safe:
  assumes "sound M s" "c \<notin> M"
  shows "sound M (mark_safe c s)"
proof -
  have "mark_safe c s = mark_safe_cells {c} s"
    by (simp add: mark_safe_cells_def)
  with sound_mark_safe_cells [OF assms(1), of "{c}"] assms(2) show ?thesis by simp
qed

lemma set_prune_from: "set (prune_from i kb) \<subseteq> set kb"
proof (induction i kb rule: prune_from.induct)
  case (1 i kb)
  show ?case
  proof (cases "i < length kb")
    case False
    then show ?thesis by (subst prune_from.simps) simp
  next
    case True
    show ?thesis
    proof (cases "card (cells (kb ! i)) = 0")
      case empty: True
      have "set (prune_from (Suc i) (remove1 (kb ! i) kb)) \<subseteq> set (remove1 (kb ! i) kb)"
        using "1.IH"(1) [OF True empty] .
      also have "\<dots> \<subseteq> set kb" by (rule set_remove1_subset)
      finally show ?thesis using True empty by (subst prune_from.simps) simp
    next
      case False
      with "1.IH"(2) [OF True False] True show ?thesis by (subst prune_from.simps) simp
    qed
  qed
qed

lemma holds_difference:
  assumes "holds M a" "holds M b" "cells a \<subseteq> cells b"
  shows "holds M (Sentence (cells b - cells a) (count b - count a))"
proof -
  have fin: "finite (cells b)" "finite (cells a)" using assms by (simp_all add: holds_def)
  have "(cells b - cells a) \<inter> M = (cells b \<inter> M) - (cells a \<inter> M)" by auto
  moreover have "card ((cells b \<inter> M) - (cells a \<inter> M)) = card (cells b \<inter> M) - card (cells a \<inter> M)"
    using fin assms(3) by (intro card_Diff_subset) auto
  moreover have "card (cells a \<inter> M) \<le> card (cells b \<inter> M)"
    using fin assms(3) by (intro card_mono) auto
  ultimately show ?thesis using assms fin by (simp add: holds_def Sentence_def)
qed

lemma subset_step_holds:
  assumes "list_all (holds M) kb" "holds M (Sentence cs cnt)" "subset_step cs cnt i kb = Inr kb'"
  shows "list_all (holds M) kb'"
proof -
  have all: "\<And>k. k \<in> set kb \<Longrightarrow> holds M k" using assms(1) by (simp add: list_all_iff)
  have new: "cells (Sentence cs cnt) = cs" "count (Sentence cs cnt) = cnt" by (simp_all add: Sentence_def)
  show ?thesis
  proof (cases "i < length kb")
    case False
    with assms(3) show ?thesis by (simp add: subset_step_def)
  next
    case True
    then have ki: "holds M (kb ! i)" using all by simp
    consider (same) "cells (kb ! i) = cs"
      | (sub) "cells (kb ! i) \<noteq> cs" "cells (kb ! i) \<subseteq> cs"
      | (sup) "cells (kb ! i) \<noteq> cs" "\<not> cells (kb ! i) \<subseteq> cs" "cs \<subseteq> cells (kb ! i)"
      | (none) "cells (kb ! i) \<noteq> cs" "\<not> cells (kb ! i) \<subseteq> cs" "\<not> cs \<subseteq> cells (kb ! i)"
      by blast
    then show ?thesis
    proof cases
      case same
      with True assms(1,3) show ?thesis by (simp add: subset_step_def)
    next
      case none
      with True assms(1,3) show ?thesis by (simp add: subset_step_def)
    next
      case sub
      have d: "holds M (Sentence (cs - cells (kb ! i)) (cnt - count (kb ! i)))"
        using holds_difference [OF ki assms(2)] sub(2) new by simp
      have "set kb' \<subseteq> set (kb @ [Sentence (cs - cells (kb ! i)) (cnt - count (kb ! i))])"
        using True sub assms(3) set_remove1_subset [of "Sentence cs cnt"]
        by (auto simp: subset_step_def Let_def split: if_splits)
      with all d show ?thesis by (auto simp: list_all_iff)
    next
      case sup
      have d: "holds M (Sentence (cells (kb ! i) - cs) (count (kb ! i) - cnt))"
        using holds_difference [OF assms(2) ki] sup(3) new by simp
      have "set kb' \<subseteq> set (kb @ [Sentence (cells (kb ! i) - cs) (count (kb ! i) - cnt)])"
        using True sup assms(3)
          set_remove1_subset [of "(kb @ [Sentence (cells (kb ! i) - cs) (count (kb ! i) - cnt)]) ! i"]
        by (auto simp: subset_step_def Let_def simp del: nth_append split: if_splits)
      with all d show ?thesis by (auto simp: list_all_iff)
    qed
  qed
qed

lemma subset_from_holds:
  "list_all (holds M) kb \<Longrightarrow> holds M (Sentence cs cnt) \<Longrightarrow> subset_from cs cnt n i kb = Inr kb'
   \<Longrightarrow> list_all (holds M) kb'"
proof (induction cs cnt n i kb rule: subset_from.induct)
  case (1 cs cnt n i kb)
  show ?case
  proof (cases "i < n")
    case False
    with "1.prems" show ?thesis by (simp add: subset_from.simps [of cs cnt n i kb])
  next
    case True
    with "1.prems"(3) obtain kb1 where s: "subset_step cs cnt i kb = Inr kb1"
      and r: "subset_from cs cnt n (Suc i) kb1 = Inr kb'"
      by (auto simp: subset_from.simps [of cs cnt n i kb] split: sum.splits)
    from subset_step_holds [OF "1.prems"(1,2) s] have "list_all (holds M) kb1" .
    from "1.IH" [OF True s this "1.prems"(2) r] show ?thesis .
  qed
qed

lemma subset_method_holds:
  assumes "list_all (holds M) kb" "holds M (Sentence cs cnt)" "subset_method cs cnt kb = Inr kb'"
  shows "list_all (holds M) kb'"
proof -
  have "list_all (holds M) (kb @ [Sentence cs cnt])" using assms(1,2) by simp
  from subset_from_holds [OF this assms(2)] assms(3) show ?thesis
    by (simp add: subset_method_def Let_def)
qed

lemma extract_step_sound:
  assumes "i < length (knowledge s)" "sound M s"
  shows "sound M (extract_step i s)"
proof -
  define s1 where "s1 = (if truthy (known_safes (knowledge s ! i)) then
                  (case known_safes (knowledge s ! i) of
                     Some x \<Rightarrow> mark_safe_cells x s | None \<Rightarrow> s)
                else s)"
  have step: "extract_step i s = (if truthy (known_mines (knowledge s1 ! i)) then
            (case known_mines (knowledge s1 ! i) of
               Some x \<Rightarrow> mark_mine_cells x s1 | None \<Rightarrow> s1)
          else s1)"
    unfolding extract_step_def Let_def s1_def ..
  have k: "holds M (knowledge s ! i)"
    using assms by (simp add: sound_def list_all_length)
  have s1: "sound M s1"
  proof (cases "truthy (known_safes (knowledge s ! i))")
    case False
    with assms(2) show ?thesis by (simp add: s1_def)
  next
    case True
    then have z: "count (knowledge s ! i) = 0" and e: "s1 = mark_safe_cells (cells (knowledge s ! i)) s"
      by (auto simp: truthy_def known_safes_def s1_def split: if_splits)
    from k z have "finite (cells (knowledge s ! i))" "cells (knowledge s ! i) \<inter> M = {}"
      by (auto simp: holds_def)
    with assms(2) show ?thesis unfolding e by (intro sound_mark_safe_cells)
  qed
  have len: "length (knowledge s1) = length (knowledge s)"
    by (simp add: s1_def mark_safe_cells_def length_fold_mark_safe split: option.splits)
  have k1: "holds M (knowledge s1 ! i)"
    using assms(1) s1 len by (simp add: sound_def list_all_length)
  show ?thesis
  proof (cases "truthy (known_mines (knowledge s1 ! i))")
    case False
    with s1 step show ?thesis by simp
  next
    case True
    then have c: "count (knowledge s1 ! i) = int (card (cells (knowledge s1 ! i)))"
      and e: "extract_step i s = mark_mine_cells (cells (knowledge s1 ! i)) s1"
      by (auto simp: truthy_def known_mines_def step split: if_splits)
    from k1 have fin: "finite (cells (knowledge s1 ! i))" by (simp add: holds_def)
    from k1 c have "card (cells (knowledge s1 ! i) \<inter> M) = card (cells (knowledge s1 ! i))"
      by (simp add: holds_def)
    with fin have "cells (knowledge s1 ! i) \<inter> M = cells (knowledge s1 ! i)"
      by (intro card_subset_eq) auto
    then have "cells (knowledge s1 ! i) \<subseteq> M" by auto
    with s1 fin show ?thesis unfolding e by (intro sound_mark_mine_cells)
  qed
qed

lemma extract_from_sound: "sound M s \<Longrightarrow> sound M (extract_from i s)"
proof (induction i s rule: extract_from.induct)
  case (1 i s)
  show ?case
  proof (cases "i < length (knowledge s)")
    case False
    with "1.prems" show ?thesis by (subst extract_from.simps) simp
  next
    case True
    from "1.IH" [OF True extract_step_sound [OF True "1.prems"]] True show ?thesis
      by (subst extract_from.simps) simp
  qed
qed

lemma add_knowledge_sound:
  assumes "sound M s" "cell \<notin> M" "cnt = int (card (nbrs (height s) (width s) cell \<inter> M))"
    and "add_knowledge cell cnt s = Inr s'"
  shows "sound M s'"
proof -
  define s2 where "s2 = mark_safe cell (s\<lparr>moves_made := insert cell (moves_made s)\<rparr>)"
  define new where "new = new_sentence s2 cell cnt"
  define s3 where "s3 = s2\<lparr>knowledge := prune_from 0 (knowledge s2)\<rparr>"
  have "sound M (s\<lparr>moves_made := insert cell (moves_made s)\<rparr>)"
    using assms(1) by (simp add: sound_def)
  then have s2: "sound M s2" unfolding s2_def using assms(2) by (rule sound_mark_safe)
  have hw: "height s2 = height s" "width s2 = width s"
    by (simp_all add: s2_def mark_safe_def)
  have newh: "holds M (Sentence (fst new) (snd new))"
    unfolding new_def using s2 assms(3) hw
    by (intro new_sentence_holds) (simp_all add: sound_def)
  have s3: "sound M s3"
    using s2 set_prune_from [of 0 "knowledge s2"] by (auto simp: s3_def sound_def list_all_iff)
  show ?thesis
  proof (cases "card (fst new) \<noteq> 0")
    case False
    with assms(4) have "s' = s3"
      by (simp add: add_knowledge_def Let_def s3_def new_def s2_def)
    with s3 show ?thesis by simp
  next
    case True
    with assms(4) obtain kb where kb: "subset_method (fst new) (snd new) (knowledge s3) = Inr kb"
      and s': "s' = extract_from 0 (s3\<lparr>knowledge := kb\<rparr>)"
      by (auto simp: add_knowledge_def Let_def s3_def new_def s2_def split: sum.splits)
    have "list_all (holds M) kb"
      using subset_method_holds [OF _ newh kb] s3 by (simp add: sound_def)
    with s3 have "sound M (s3\<lparr>knowledge := kb\<rparr>)" by (simp add: sound_def)
    then show ?thesis unfolding s' by (rule extract_from_sound)
  qed
qed

subsection \<open>The zero rule in a sound state\<close>







text \<open>
  Under truthful input the extraction loop of \<open>add_knowledge\<close> starts in a sound state.
\<close>

lemma extraction_starts_sound:
  assumes "sound M s" "cell \<notin> M" "cnt = int (card (nbrs (height s) (width s) cell \<inter> M))"
    and "s2 = mark_safe cell (s\<lparr>moves_made := insert cell (moves_made s)\<rparr>)"
    and "subset_method (fst (new_sentence s2 cell cnt)) (snd (new_sentence s2 cell cnt))
           (prune_from 0 (knowledge s2)) = Inr kb"
  shows "sound M (s2\<lparr>knowledge := kb\<rparr>)"
proof -
  have "sound M (s\<lparr>moves_made := insert cell (moves_made s)\<rparr>)"
    using assms(1) by (simp add: sound_def)
  then have s2: "sound M s2" unfolding assms(4) using assms(2) by (rule sound_mark_safe)
  have hw: "height s2 = height s" "width s2 = width s"
    by (simp_all add: assms(4) mark_safe_def)
  have newh: "holds M (Sentence (fst (new_sentence s2 cell cnt)) (snd (new_sentence s2 cell cnt)))"
    using s2 assms(3) hw by (intro new_sentence_holds) (simp_all add: sound_def)
  have "list_all (holds M) (prune_from 0 (knowledge s2))"
    using s2 set_prune_from [of 0 "knowledge s2"] by (auto simp: sound_def list_all_iff)
  from subset_method_holds [OF this newh assms(5)] s2 show ?thesis
    by (simp add: sound_def)
qed




subsection \<open>Safes and mines under truthful play\<close>

lemma run_sound:
  assumes "list_all (truthful g) calls" "sound (board_mines g) s"
    and "height s = board_height g" "width s = board_width g"
  shows "\<exists>s'. run calls s = Inr s' \<and> sound (board_mines g) s'"
  using assms
proof (induction calls arbitrary: s)
  case Nil
  then show ?case by simp
next
  case (Cons c calls)
  have "\<exists>s1. exec c s = Inr s1 \<and> sound (board_mines g) s1 \<and> height s1 = board_height g \<and>
      width s1 = board_width g"
  proof (cases c)
    case (AddKnowledge cell n)
    obtain s1 where s1: "add_knowledge cell n s = Inr s1" "height s1 = height s" "width s1 = width s"
      using add_knowledge_result [of cell n s] by blast
    have "cell \<notin> board_mines g" "n = int (card (nbrs (height s) (width s) cell \<inter> board_mines g))"
      using Cons.prems(1,3,4) AddKnowledge by (simp_all add: is_mine_def nearby_mines_eq)
    from add_knowledge_sound [OF Cons.prems(2) this s1(1)] s1 Cons.prems(3,4) AddKnowledge
    show ?thesis by simp
  next
    case MakeSafeMove
    with Cons.prems show ?thesis by (simp add: make_safe_move_def)
  next
    case (MakeRandomMove r)
    with Cons.prems show ?thesis by (simp add: make_random_move_def)
  qed
  then obtain s1 where s1: "exec c s = Inr s1" "sound (board_mines g) s1"
    "height s1 = board_height g" "width s1 = board_width g" by blast
  from Cons.IH [OF _ s1(2,3,4)] Cons.prems(1) obtain s' where
    "run calls s1 = Inr s'" "sound (board_mines g) s'" by auto
  with s1(1) show ?case by simp
qed

text \<open>
  C4 (as the code has it). After every sequence of public calls on a fresh player in which
  each \<open>add_knowledge\<close> call is truthful for one and the same board, all calls have
  returned and \<open>safes\<close> and \<open>mines\<close> are disjoint.
\<close>

theorem truthful_play_keeps_safes_and_mines_apart:
  assumes "list_all (truthful g) calls"
  shows "\<exists>s'. run calls (MinesweeperAI (board_height g) (board_width g)) = Inr s' \<and>
              safes s' \<inter> mines s' = {}"
proof -
  have "sound (board_mines g) (MinesweeperAI (board_height g) (board_width g))"
    by (simp add: sound_def MinesweeperAI_def)
  from run_sound [OF assms this] obtain s' where
    "run calls (MinesweeperAI (board_height g) (board_width g)) = Inr s'" "sound (board_mines g) s'"
    by (auto simp: MinesweeperAI_def)
  moreover from this(2) have "safes s' \<inter> mines s' = {}" by (auto simp: sound_def)
  ultimately show ?thesis by blast
qed

theorem truthful_play_keeps_safes_and_mines_apart_witness:
  "list_all (truthful \<lparr>board_height = 1, board_width = 5, board_mines = {(0, 2), (0, 4)}\<rparr>)
     [AddKnowledge (0, 1) 1, MakeSafeMove, AddKnowledge (0, 3) 2] \<and>
   (\<exists>s'. run [AddKnowledge (0, 1) 1, MakeSafeMove, AddKnowledge (0, 3) 2] (MinesweeperAI 1 5) = Inr s' \<and>
         safes s' \<inter> mines s' = {})"
proof -
  have t: "list_all (truthful \<lparr>board_height = 1, board_width = 5, board_mines = {(0, 2), (0, 4)}\<rparr>)
     [AddKnowledge (0, 1) 1, MakeSafeMove, AddKnowledge (0, 3) 2]"
    by code_simp
  from truthful_play_keeps_safes_and_mines_apart [OF t] t show ?thesis by simp
qed

text \<open>
  C4 as stated fails. Without truthful counts the sets meet: told that all three
  neighbours of \<open>(0, 0)\<close> are mines and then handed \<open>(0, 1)\<close> as a safe cell, the player
  has \<open>(0, 1)\<close> in both sets.
\<close>

theorem untruthful_counts_overlap:
  "run [AddKnowledge (0, 0) 3, AddKnowledge (0, 1) 0] (MinesweeperAI 2 2) =
     Inr \<lparr>height = 2, width = 2, moves_made = {(0, 0), (0, 1)},
          mines = {(0, 1), (1, 0), (1, 1)}, safes = {(0, 0), (0, 1)}, knowledge = []\<rparr> \<and>
   safes \<lparr>height = 2, width = 2, moves_made = {(0, 0), (0, 1)},
          mines = {(0, 1), (1, 0), (1, 1)}, safes = {(0, 0), (0, 1)}, knowledge = []\<rparr>
     \<inter> mines \<lparr>height = 2, width = 2, moves_made = {(0, 0), (0, 1)},
          mines = {(0, 1), (1, 0), (1, 1)}, safes = {(0, 0), (0, 1)}, knowledge = []\<rparr> = {(0, 1)}"
  by code_simp

subsection \<open>One call of \<open>add_knowledge\<close> makes one pass\<close>

text \<open>
  C1, on the row of five cells. Both calls are truthful. When the second returns, the
  knowledge base holds the sentence \<open>{(0, 0)} = 0\<close> and \<open>(0, 0)\<close> is not among the safes:
  the sentence lost its mine to a sentence visited later in the same pass. Running the
  extraction loop once more on the returned state marks \<open>(0, 0)\<close> safe, so the returned
  state is not a fixpoint of extraction.
\<close>

theorem single_pass_is_no_fixpoint:
  "list_all (truthful line_board) [AddKnowledge (0, 1) 1, AddKnowledge (0, 3) 2] \<and>
   run [AddKnowledge (0, 1) 1, AddKnowledge (0, 3) 2] (MinesweeperAI 1 5) = Inr line_state \<and>
   (0, 0) \<notin> safes line_state \<and>
   extract_from 0 line_state =
     line_state\<lparr>safes := {(0, 0), (0, 1), (0, 3)},
                 knowledge := [\<lparr>cells = {}, count = 0\<rparr>, \<lparr>cells = {}, count = 0\<rparr>]\<rparr>"
  by code_simp

subsection \<open>The subset loop\<close>

text \<open>
  With \<open>A = {c1, c2, c3} = 1\<close> alone in the knowledge base and the new sentence
  \<open>B = {c1, c2, c3, c4} = 2\<close>, the loop derives \<open>{c4} = 1\<close> and drops \<open>B\<close>; its second
  round then reads the derived sentence, which has moved to index 1, and derives \<open>A\<close> once
  more. The extraction loop marks \<open>c4\<close> as a mine.
\<close>

lemma subset_rule_on_its_own:
  assumes "distinct [c1, c2, c3, c4]"
  shows "subset_method {c1, c2, c3, c4} 2 [Sentence {c1, c2, c3} 1]
    = Inr [Sentence {c1, c2, c3} 1, Sentence {c4} 1, Sentence {c1, c2, c3} 1]"
proof -
  have ne: "{c1, c2, c3} \<noteq> {c1, c2, c3, c4}" "{c4} \<noteq> {c1, c2, c3, c4}" using assms by auto
  have d: "{c1, c2, c3, c4} - {c1, c2, c3} = {c4}" "{c1, c2, c3, c4} - {c4} = {c1, c2, c3}"
    using assms by auto
  have s0: "subset_step {c1, c2, c3, c4} 2 0 [Sentence {c1, c2, c3} 1, Sentence {c1, c2, c3, c4} 2]
     = Inr [Sentence {c1, c2, c3} 1, Sentence {c4} 1]"
    using ne d by (simp add: subset_step_def Let_def Sentence_def)
  have s1: "subset_step {c1, c2, c3, c4} 2 (Suc 0) [Sentence {c1, c2, c3} 1, Sentence {c4} 1]
     = Inr [Sentence {c1, c2, c3} 1, Sentence {c4} 1, Sentence {c1, c2, c3} 1]"
    using ne d by (simp add: subset_step_def Let_def Sentence_def)
  show ?thesis
    by (simp add: subset_method_def Let_def subset_from.simps [of _ _ _ 0] subset_from.simps [of _ _ _ "Suc 0"]
        subset_from.simps [of _ _ _ "Suc (Suc 0)"] s0 s1)
qed

lemma extract_step_full:
  assumes "finite (cells (knowledge s ! i))" "count (knowledge s ! i) = int (card (cells (knowledge s ! i)))"
    and "count (knowledge s ! i) \<noteq> 0"
  shows "cells (knowledge s ! i) \<subseteq> mines (extract_step i s)"
proof -
  have "\<not> truthy (known_safes (knowledge s ! i))"
    using assms by (simp add: truthy_def known_safes_def)
  moreover have "truthy (known_mines (knowledge s ! i))"
    using assms by (simp add: truthy_def known_mines_def)
  ultimately have "extract_step i s = mark_mine_cells (cells (knowledge s ! i)) s"
    using assms by (simp add: extract_step_def Let_def known_mines_def)
  then show ?thesis using assms(1) by (simp add: mark_mine_cells_eq)
qed

lemma subset_rule_marks_the_mine:
  assumes "knowledge s = [Sentence {c1, c2, c3} 1, Sentence {c4} 1, Sentence {c1, c2, c3} 1]"
    and "distinct [c1, c2, c3, c4]"
  shows "c4 \<in> mines (extract_from 0 s)"
proof -
  have c: "card {c1, c2, c3} = 3" using assms(2) by simp
  have e0: "extract_step 0 s = s"
    using assms(1) c by (simp add: extract_step_def Let_def known_safes_def known_mines_def truthy_def Sentence_def)
  have "cells (knowledge s ! 1) \<subseteq> mines (extract_step 1 s)"
    using assms(1) by (intro extract_step_full) (simp_all add: Sentence_def)
  then have e1: "c4 \<in> mines (extract_step 1 s)"
    using assms(1) by (simp add: Sentence_def)
  have "extract_from 0 s = extract_from 2 (extract_step 1 s)"
    using assms(1) e0 by (simp add: extract_from.simps [of 0] extract_from.simps [of "Suc 0"] numeral_2_eq_2)
  moreover have "mines (extract_step 1 s) \<subseteq> mines (extract_from 2 (extract_step 1 s))"
    using extract_from_frame by blast
  ultimately show ?thesis using e1 by auto
qed

text \<open>
  C2, on the 3 by 5 board. All six calls are truthful and no cell is asked twice. When the
  sixth call reaches the subset loop, the knowledge base contains
  \<open>A = {(1, 2), (2, 2), (2, 4)}\<close> with count 1 and the new sentence is
  \<open>B = {(1, 2), (1, 4), (2, 2), (2, 4)}\<close> with count 2. The sentence before \<open>A\<close> in the
  list is a superset of \<open>B\<close>; the loop removes it, \<open>A\<close> moves into its place and is never
  visited. The loop ends without \<open>{(1, 4)} = 1\<close>, and when the call returns \<open>(1, 4)\<close> is
  not among the mines.
\<close>

theorem subset_loop_skips_a_sentence:
  "list_all (truthful skip_board) (skip_calls @ [AddKnowledge (2, 3) 2]) \<and>
   run skip_calls (MinesweeperAI 3 5) = Inr skip_state \<and>
   prune_from 0 (knowledge (mark_safe (2, 3) (skip_state\<lparr>moves_made := insert (2, 3) (moves_made skip_state)\<rparr>)))
     = skip_knowledge \<and>
   Sentence {(1, 2), (2, 2), (2, 4)} 1 \<in> set skip_knowledge \<and>
   new_sentence (mark_safe (2, 3) (skip_state\<lparr>moves_made := insert (2, 3) (moves_made skip_state)\<rparr>)) (2, 3) 2
     = ({(1, 2), (1, 4), (2, 2), (2, 4)}, 2) \<and>
   subset_method {(1, 2), (1, 4), (2, 2), (2, 4)} 2 skip_knowledge =
     Inr [\<lparr>cells = {(1, 2), (2, 0), (2, 2)}, count = 1\<rparr>,
          \<lparr>cells = {(0, 3), (1, 4)}, count = 1\<rparr>,
          \<lparr>cells = {(1, 2), (2, 2), (2, 4)}, count = 1\<rparr>,
          \<lparr>cells = {(1, 2), (1, 4), (2, 2), (2, 4)}, count = 2\<rparr>,
          \<lparr>cells = {(0, 3)}, count = 0\<rparr>] \<and>
   add_knowledge (2, 3) 2 skip_state =
     Inr \<lparr>height = 3, width = 5, moves_made = {(0, 0), (0, 4), (1, 1), (1, 3), (2, 1), (2, 3)},
          mines = {(0, 1), (1, 0)},
          safes = {(0, 0), (0, 2), (0, 3), (0, 4), (1, 1), (1, 3), (2, 1), (2, 3)},
          knowledge =
            [\<lparr>cells = {(1, 2), (2, 0), (2, 2)}, count = 1\<rparr>,
             \<lparr>cells = {(1, 4)}, count = 1\<rparr>,
             \<lparr>cells = {(1, 2), (2, 2), (2, 4)}, count = 1\<rparr>,
             \<lparr>cells = {(1, 2), (1, 4), (2, 2), (2, 4)}, count = 2\<rparr>,
             \<lparr>cells = {}, count = 0\<rparr>]\<rparr>"
  by code_simp

subsection \<open>The random move on a board that is not square\<close>

text \<open>
  What \<open>make_random_move\<close> does in every state: it returns \<open>None\<close> exactly when its own
  \<open>setall\<close> is empty, and a cell of \<open>setall\<close> otherwise. On a square board \<open>setall\<close> is
  the set of the specification.
\<close>

lemma finite_setall: "finite (setall s)"
  by (simp add: setall_def)

lemma random_move_none: "fst (make_random_move r s) = None \<longleftrightarrow> setall s = {}"
  using card_0_eq [OF finite_setall [of s]] by (simp add: make_random_move_def)

lemma random_move_some:
  assumes "fst (make_random_move r s) = Some c"
  shows "c \<in> setall s"
proof -
  have n: "card (setall s) \<noteq> 0" and c: "c = sorted_list_of_set (setall s) ! (r mod card (setall s))"
    using assms by (auto simp: make_random_move_def split: if_splits)
  have "r mod card (setall s) < length (sorted_list_of_set (setall s))"
    using n by simp
  then have "c \<in> set (sorted_list_of_set (setall s))"
    unfolding c by (rule nth_mem)
  then show ?thesis by (simp add: finite_setall)
qed

lemma setall_square:
  "height s = width s \<Longrightarrow> setall s = board_cells s - moves_made s - safes s - mines s"
  by (simp add: setall_def board_cells_def)

lemma strip_setall: "setall strip_state = {(1, 0)}"
  by code_simp

text \<open>
  C5, on the board of one row and two columns. After \<open>add_knowledge((0, 0), 0)\<close> every
  cell of the board is a safe, so the set of the claim is empty; \<open>make_random_move\<close>
  builds \<open>setall\<close> with the row index running over the width and the column index over
  the height, and returns \<open>(1, 0)\<close>, a cell that is not on the board, whatever is drawn.
\<close>

theorem random_move_swaps_height_and_width:
  "add_knowledge (0, 0) 0 (MinesweeperAI 1 2) = Inr strip_state \<and>
   board_cells strip_state - moves_made strip_state - safes strip_state - mines strip_state = {} \<and>
   fst (make_random_move r strip_state) = Some (1, 0)"
proof -
  have 1: "add_knowledge (0, 0) 0 (MinesweeperAI 1 2) = Inr strip_state"
    by code_simp
  have 2: "board_cells strip_state - moves_made strip_state - safes strip_state - mines strip_state = {}"
    by code_simp
  have 3: "fst (make_random_move r strip_state) = Some (1, 0)"
    by (simp add: make_random_move_def strip_setall)
  from 1 2 3 show ?thesis by blast
qed

end
